theory Spec2Isabelle
  imports Main
begin

section \<open>Characters and case folding\<close>

text \<open>
  All three tools work on byte strings (\<open>std::string\<close>, \<open>char*\<close>), modelled as
  \<open>string\<close>, a list of 8-bit characters.  The regular expressions of
  \<open>website_mapper.cpp\<close> are compiled with \<open>std::regex::icase\<close>; the library then
  compares characters after translating them with \<open>tolower\<close> of the global locale,
  which \<open>main\<close> never changes from the classic "C" locale: the 26 upper-case Latin
  letters are mapped to their lower-case forms and every other byte is left alone.
\<close>

definition tolower :: "char \<Rightarrow> char" where
  "tolower c =
     (case map_of (zip ''ABCDEFGHIJKLMNOPQRSTUVWXYZ'' ''abcdefghijklmnopqrstuvwxyz'') c of
        None \<Rightarrow> c
      | Some l \<Rightarrow> l)"

definition endl :: string where
  "endl = [CHR 0x0A]"

section \<open>The regular expressions of website\_mapper.cpp\<close>

text \<open>
  \<open>std::regex\<close> uses the ECMAScript grammar by default, whose matcher is a
  backtracking search with priorities: a greedy quantifier tries the longer
  repetition first, a lazy one the shorter, and the first complete match found in
  that order is the result.  The two patterns of the program use only literal
  characters, bracket expressions, the wildcard \<open>.\<close>, the quantifiers \<open>*\<close>, \<open>+\<close>
  and \<open>*?\<close> on a single-character matcher, and one capture group; the model covers
  exactly this fragment.

  An \<open>atom\<close> matches one character: \<open>Ch c\<close> is the literal \<open>c\<close>, \<open>Pos cs\<close> the
  bracket expression \<open>[cs]\<close>, \<open>Neg cs\<close> the negated bracket expression \<open>[^cs]\<close>, and
  \<open>Dot\<close> the wildcard, which in ECMAScript matches every character except the line
  terminators (line feed and carriage return).
\<close>

datatype atom = Ch char | Pos "char list" | Neg "char list" | Dot

fun accepts :: "atom \<Rightarrow> char \<Rightarrow> bool" where
  "accepts (Ch p) c = (tolower c = tolower p)"
| "accepts (Pos ps) c = (tolower c \<in> set (map tolower ps))"
| "accepts (Neg ps) c = (tolower c \<notin> set (map tolower ps))"
| "accepts Dot c = (tolower c \<noteq> tolower (CHR 0x0A) \<and> tolower c \<noteq> tolower (CHR 0x0D))"

text \<open>
  A pattern is a sequence of items: \<open>One a\<close> is the atom itself, \<open>Star a\<close> is \<open>a*\<close>,
  \<open>Plus a\<close> is \<open>a+\<close>, \<open>LazyStar a\<close> is \<open>a*?\<close>, and \<open>Open\<close>, \<open>Close\<close> are the
  parentheses of capture group 1.
\<close>

datatype item = One atom | Star atom | Plus atom | LazyStar atom | Open | Close

text \<open>
  \<open>run re s mk cap\<close> matches the pattern \<open>re\<close> at the very start of the input \<open>s\<close>.
  \<open>mk\<close> is the input as it was when the group was opened and \<open>cap\<close> the text captured
  by the group so far.  The result is the captured text together with the input left
  after the match, or \<open>None\<close> when no way of matching exists.
\<close>

fun run :: "item list \<Rightarrow> string \<Rightarrow> string \<Rightarrow> string \<Rightarrow> (string \<times> string) option" where
  "run [] s mk cap = Some (cap, s)"
| "run (One a # r) [] mk cap = None"
| "run (One a # r) (c # cs) mk cap = (if accepts a c then run r cs mk cap else None)"
| "run (Star a # r) [] mk cap = run r [] mk cap"
| "run (Star a # r) (c # cs) mk cap =
     (if accepts a c
      then (case run (Star a # r) cs mk cap of
              Some m \<Rightarrow> Some m
            | None \<Rightarrow> run r (c # cs) mk cap)
      else run r (c # cs) mk cap)"
| "run (Plus a # r) [] mk cap = None"
| "run (Plus a # r) (c # cs) mk cap =
     (if accepts a c then run (Star a # r) cs mk cap else None)"
| "run (LazyStar a # r) [] mk cap = run r [] mk cap"
| "run (LazyStar a # r) (c # cs) mk cap =
     (case run r (c # cs) mk cap of
        Some m \<Rightarrow> Some m
      | None \<Rightarrow> if accepts a c then run (LazyStar a # r) cs mk cap else None)"
| "run (Open # r) s mk cap = run r s s cap"
| "run (Close # r) s mk cap = run r s mk (take (length mk - length s) mk)"

definition lit :: "string \<Rightarrow> item list" where
  "lit p = map (\<lambda>c. One (Ch c)) p"

definition quotes :: "char list" where
  "quotes = [CHR 0x22, CHR 0x27]"

text \<open>
  Line 41: \<^verbatim>\<open>std::regex linkRegex("<a[^>]*href=[\"']([^\"']+)[\"']", std::regex::icase);\<close>
  The pattern behind the C++ escapes is \<^verbatim>\<open><a[^>]*href=["']([^"']+)["']\<close>.
\<close>

definition linkRegex :: "item list" where
  "linkRegex =
     lit ''<a'' @ [Star (Neg ''>'')] @ lit ''href='' @
     [One (Pos quotes), Open, Plus (Neg quotes), Close, One (Pos quotes)]"

text \<open>
  Line 42: \<^verbatim>\<open>std::regex buttonRegex("<button[^>]*>(.*?)</button>", std::regex::icase);\<close>
\<close>

definition buttonRegex :: "item list" where
  "buttonRegex =
     lit ''<button'' @ [Star (Neg ''>''), One (Ch (CHR ''>'')), Open, LazyStar Dot, Close] @
     lit ''</button>''"

text \<open>
  \<open>std::regex_search\<close> tries the pattern at the first position of the range, then at
  the second, and so on up to and including the end of the range, and reports the
  first position where it matches.  Of the \<open>std::smatch\<close> it fills in, the program
  reads \<open>match[1]\<close> and \<open>match.suffix().first\<close>; \<open>position\<close> is \<open>match.position(0)\<close>,
  the length of \<open>match.prefix()\<close>.
\<close>

record smatch =
  position :: nat
  sub1 :: string
  suffix :: string

fun search_from :: "item list \<Rightarrow> nat \<Rightarrow> string \<Rightarrow> smatch option" where
  "search_from re k [] =
     (case run re [] [] [] of
        None \<Rightarrow> None
      | Some (cap, rest) \<Rightarrow> Some \<lparr>position = k, sub1 = cap, suffix = rest\<rparr>)"
| "search_from re k (c # cs) =
     (case run re (c # cs) [] [] of
        None \<Rightarrow> search_from re (Suc k) cs
      | Some (cap, rest) \<Rightarrow> Some \<lparr>position = k, sub1 = cap, suffix = rest\<rparr>)"

definition regex_search :: "item list \<Rightarrow> string \<Rightarrow> smatch option" where
  "regex_search re s = search_from re 0 s"

section \<open>website\_mapper.cpp\<close>

subsection \<open>The extraction loops (lines 44 to 58)\<close>

text \<open>
  Each \<open>while\<close> loop searches the rest of the buffer, appends \<open>match[1]\<close> to its
  vector and continues from \<open>match.suffix().first\<close>.  The loops end because a match
  of either pattern is never empty, which the termination proofs below establish.
\<close>

function links_loop :: "string \<Rightarrow> string list" where
  "links_loop s =
     (case regex_search linkRegex s of
        None \<Rightarrow> []
      | Some m \<Rightarrow> sub1 m # links_loop (suffix m))"
  by pat_completeness auto

function buttons_loop :: "string \<Rightarrow> string list" where
  "buttons_loop s =
     (case regex_search buttonRegex s of
        None \<Rightarrow> []
      | Some m \<Rightarrow> sub1 m # buttons_loop (suffix m))"
  by pat_completeness auto

text \<open>
  The specification calls this part \<open>extract\<close> (a reserved word here, hence
  \<open>extract_body\<close>) and its two results \<open>Links\<close> and
  \<open>ButtonLabels\<close>; in the source they are the vectors \<open>links\<close> and \<open>buttons\<close> of
  \<open>main\<close>, both filled from the same buffer \<open>html\<close>.
\<close>

record ExtractionResult =
  links :: "string list"
  buttons :: "string list"

definition extract_body :: "string \<Rightarrow> ExtractionResult" where
  "extract_body html = \<lparr>links = links_loop html, buttons = buttons_loop html\<rparr>"

subsection \<open>The transfer (lines 8 to 39)\<close>

text \<open>
  \<open>WriteCallback\<close> appends the \<open>size * nmemb\<close> bytes it is handed to the buffer and
  reports all of them as consumed.
\<close>

definition WriteCallback :: "string \<Rightarrow> nat \<Rightarrow> nat \<Rightarrow> string \<Rightarrow> string \<times> nat" where
  "WriteCallback contents sz nmemb buffer =
     (let totalSize = sz * nmemb in (buffer @ take totalSize contents, totalSize))"

text \<open>
  libcurl is the environment of the program.  \<open>curl_easy_init_ok\<close> tells whether
  \<open>curl_easy_init\<close> returns a handle; \<open>curl_easy_perform\<close> gives, for a URL, the
  \<open>CURLcode\<close> of the transfer and the pieces of the body handed to the write callback
  before it returned; \<open>curl_easy_strerror\<close> is the library's message for a code.
\<close>

record curl_world =
  curl_easy_init_ok :: bool
  curl_easy_perform :: "string \<Rightarrow> nat \<times> string list"
  curl_easy_strerror :: "nat \<Rightarrow> string"

definition CURLE_OK :: nat where
  "CURLE_OK = 0"

definition receive :: "string list \<Rightarrow> string" where
  "receive chunks =
     foldl (\<lambda>html chunk. fst (WriteCallback chunk 1 (length chunk) html)) [] chunks"

subsection \<open>What a run of a tool does\<close>

text \<open>
  The observable behaviour of one run: the calls made to the outside world, in order,
  what was written to \<open>std::cout\<close> and to \<open>std::cerr\<close>, and the value \<open>main\<close>
  returned.
\<close>

datatype event =
  Curl_init | Curl_perform string | Curl_cleanup | Popen string | Pclose | System string

record outcome =
  calls :: "event list"
  cout :: string
  cerr :: string
  returned :: int

text \<open>
  On a POSIX system the exit status a parent sees is the low eight bits of the value
  \<open>main\<close> returns.
\<close>

definition exit_status :: "outcome \<Rightarrow> nat" where
  "exit_status r = nat (returned r mod 256)"

subsection \<open>main (lines 15 to 71)\<close>

text \<open>Lines 61 to 63 and 66 to 68: one line \<open>" - " << item << std::endl\<close> per item.\<close>

definition print_items :: "string list \<Rightarrow> string \<Rightarrow> string" where
  "print_items xs out = foldl (\<lambda>out x. out @ '' - '' @ x @ endl) out xs"

text \<open>
  \<open>argv\<close> is the argument vector, \<open>argc\<close> its length.  With an empty vector
  \<open>argv[0]\<close> is a null pointer and streaming it is undefined; the model then writes
  nothing after \<open>Usage: \<close>, which is what the stream does once the null pointer has
  set its error state.
\<close>

definition website_mapper_main :: "curl_world \<Rightarrow> string list \<Rightarrow> outcome" where
  "website_mapper_main w argv =
     (if length argv < 2 then
        \<lparr>calls = [], cout = [],
         cerr = ''Usage: '' @ (case argv of [] \<Rightarrow> [] | a0 # _ \<Rightarrow> a0 @ '' <url>'' @ endl),
         returned = 1\<rparr>
      else
        let url = argv ! 1 in
        if \<not> curl_easy_init_ok w then
          \<lparr>calls = [Curl_init], cout = [],
           cerr = ''Failed to initialize libcurl'' @ endl,
           returned = 1\<rparr>
        else
          let (res, chunks) = curl_easy_perform w url;
              html = receive chunks
          in
          if res \<noteq> CURLE_OK then
            \<lparr>calls = [Curl_init, Curl_perform url, Curl_cleanup], cout = [],
             cerr = ''curl_easy_perform() failed: '' @ curl_easy_strerror w res @ endl,
             returned = 1\<rparr>
          else
            let r = extract_body html;
                out1 = print_items (links r) ''Links found:\<newline>'';
                out2 = print_items (buttons r) (out1 @ ''\<newline>Buttons found:\<newline>'')
            in
            \<lparr>calls = [Curl_init, Curl_perform url, Curl_cleanup], cout = out2,
             cerr = [], returned = 0\<rparr>)"

section \<open>cli\_runner.cpp\<close>

text \<open>Lines 10 to 14: the arguments after the program name, joined by single spaces.\<close>

function runner_cmd :: "string list \<Rightarrow> nat \<Rightarrow> string \<Rightarrow> string" where
  "runner_cmd argv i cmd =
     (if i < length argv
      then runner_cmd argv (i + 1) ((if i > 1 then cmd @ '' '' else cmd) @ argv ! i)
      else cmd)"
  by pat_completeness auto
termination
  by (relation "measure (\<lambda>(argv, i, cmd). length argv - i)") auto

text \<open>\<open>operator<<\<close> on an \<open>int\<close> writes it in decimal.\<close>

function digits10 :: "nat \<Rightarrow> string" where
  "digits10 n =
     (if n < 10 then [''0123456789'' ! n]
      else digits10 (n div 10) @ [''0123456789'' ! (n mod 10)])"
  by pat_completeness auto
termination
  by (relation "measure id") auto

definition show_int :: "int \<Rightarrow> string" where
  "show_int i = (if i < 0 then CHR ''-'' # digits10 (nat (- i)) else digits10 (nat i))"

text \<open>
  \<open>system\<close> is the environment: the value \<open>std::system\<close> returns for a command line.
  The child writes to the streams it inherits, not through \<open>std::cout\<close> of the tool.
\<close>

definition cli_runner_main :: "(string \<Rightarrow> int) \<Rightarrow> string list \<Rightarrow> outcome" where
  "cli_runner_main system argv =
     (if length argv < 2 then
        \<lparr>calls = [], cout = [], cerr = ''No command provided'' @ endl, returned = 1\<rparr>
      else
        let cmd = runner_cmd argv 1 [];
            result = system cmd
        in
        \<lparr>calls = [System cmd], cout = [],
         cerr = (if result \<noteq> 0 then ''Command failed with code '' @ show_int result @ endl
                 else []),
         returned = result\<rparr>)"

section \<open>cli\_bridge.cpp\<close>

text \<open>Lines 12 to 16: every argument is appended to the fixed command after a space.\<close>

function bridge_cmd :: "string list \<Rightarrow> nat \<Rightarrow> string \<Rightarrow> string" where
  "bridge_cmd argv i cmd =
     (if i < length argv
      then bridge_cmd argv (i + 1) ((cmd @ '' '') @ argv ! i)
      else cmd)"
  by pat_completeness auto
termination
  by (relation "measure (\<lambda>(argv, i, cmd). length argv - i)") auto

text \<open>
  A child process as the tool can see it: the bytes it writes to its standard output,
  and the status \<open>pclose\<close> would report for it.  \<open>popen\<close> is a partial map from
  command lines to children; \<open>None\<close> is the null pointer \<open>popen\<close> returns when the
  process cannot be started.
\<close>

record child =
  child_stdout :: string
  child_status :: int

text \<open>
  \<open>fgets\<close> with a buffer of \<open>sz\<close> bytes reads at most \<open>sz - 1\<close> characters and
  stops after a line feed; at the end of the stream, with nothing read, it returns a
  null pointer.
\<close>

fun fgets_take :: "nat \<Rightarrow> string \<Rightarrow> string \<times> string" where
  "fgets_take 0 s = ([], s)"
| "fgets_take (Suc n) [] = ([], [])"
| "fgets_take (Suc n) (c # cs) =
     (if c = CHR 0x0A then ([c], cs)
      else (case fgets_take n cs of (l, r) \<Rightarrow> (c # l, r)))"

definition fgets :: "nat \<Rightarrow> string \<Rightarrow> (string \<times> string) option" where
  "fgets sz s = (if s = [] then None else Some (fgets_take (sz - 1) s))"

text \<open>\<open>result += buffer.data()\<close> appends the buffer as a C string, up to its first zero byte.\<close>

definition c_str :: "string \<Rightarrow> string" where
  "c_str buf = takeWhile (\<lambda>c. c \<noteq> CHR 0x00) buf"

function read_loop :: "string \<Rightarrow> string \<Rightarrow> string" where
  "read_loop pipe result =
     (case fgets 256 pipe of
        None \<Rightarrow> result
      | Some (buf, rest) \<Rightarrow> read_loop rest (result @ c_str buf))"
  by pat_completeness auto

definition cli_bridge_main :: "(string \<rightharpoonup> child) \<Rightarrow> string list \<Rightarrow> outcome" where
  "cli_bridge_main popen argv =
     (if length argv < 2 then
        \<lparr>calls = [], cout = [], cerr = ''Usage: cli_bridge <args>\<newline>'', returned = 1\<rparr>
      else
        let cmd = bridge_cmd argv 1 ''python3 enhanced_based_god_cli.py'' in
        (case popen cmd of
           None \<Rightarrow>
             \<lparr>calls = [Popen cmd], cout = [], cerr = ''Failed to run command\<newline>'',
              returned = 1\<rparr>
         | Some ch \<Rightarrow>
             \<lparr>calls = [Popen cmd, Pclose], cout = read_loop (child_stdout ch) [], cerr = [],
              returned = 0\<rparr>))"

section \<open>Notions used to state the properties\<close>

text \<open>
  Two strings are equal up to letter case when they agree after \<open>tolower\<close>, and a text
  contains a pattern up to letter case when some stretch of it equals the pattern in
  this sense.
\<close>

definition ieq :: "string \<Rightarrow> string \<Rightarrow> bool" where
  "ieq u v = (map tolower u = map tolower v)"

fun icontains :: "string \<Rightarrow> string \<Rightarrow> bool" where
  "icontains [] p = ieq [] p"
| "icontains (c # cs) p = (ieq (take (length p) (c # cs)) p \<or> icontains cs p)"

text \<open>
  The button loop once more, now also recording where each match begins:
  \<open>button_hits off s\<close> pairs every label with \<open>match.position(0)\<close> counted from the
  start of the whole buffer, \<open>off\<close> being the number of characters already consumed.
  Its labels are those of \<open>buttons_loop\<close> (lemma \<open>button_hits_labels\<close> below).
\<close>

function button_hits :: "nat \<Rightarrow> string \<Rightarrow> (nat \<times> string) list" where
  "button_hits off s =
     (case regex_search buttonRegex s of
        None \<Rightarrow> []
      | Some m \<Rightarrow>
          (off + position m, sub1 m) #
          button_hits (off + (length s - length (suffix m))) (suffix m))"
  by pat_completeness auto
















section \<open>Termination of the loops\<close>

lemma run_suffix_le:
  "run re s mk cap = Some (x, rest) \<Longrightarrow> length rest \<le> length s"
proof (induction re s mk cap arbitrary: x rest rule: run.induct)
  case (3 a r c cs mk cap)
  from "3.prems" have "accepts a c" and "run r cs mk cap = Some (x, rest)"
    by (simp_all split: if_splits)
  with "3.IH" show ?case by fastforce
next
  case (5 a r c cs mk cap)
  show ?case
  proof (cases "accepts a c")
    case True
    show ?thesis
    proof (cases "run (Star a # r) cs mk cap")
      case None
      with True "5.prems" have "run r (c # cs) mk cap = Some (x, rest)" by simp
      from "5.IH"(2) [OF True None this] show ?thesis .
    next
      case (Some m)
      with True "5.prems" have "run (Star a # r) cs mk cap = Some (x, rest)" by simp
      from "5.IH"(1) [OF True this] show ?thesis by simp
    qed
  next
    case False
    with "5.prems" have "run r (c # cs) mk cap = Some (x, rest)" by simp
    from "5.IH"(3) [OF False this] show ?thesis .
  qed
next
  case (7 a r c cs mk cap)
  from "7.prems" have "accepts a c" and "run (Star a # r) cs mk cap = Some (x, rest)"
    by (simp_all split: if_splits)
  with "7.IH" show ?case by fastforce
next
  case (9 a r c cs mk cap)
  show ?case
  proof (cases "run r (c # cs) mk cap")
    case None
    with "9.prems" have acc: "accepts a c"
      and "run (LazyStar a # r) cs mk cap = Some (x, rest)"
      by (simp_all split: if_splits)
    from "9.IH"(2) [OF None acc this(2)] show ?thesis by simp
  next
    case (Some m)
    with "9.prems" have "run r (c # cs) mk cap = Some (x, rest)" by simp
    from "9.IH"(1) [OF this] show ?thesis .
  qed
next
  case (10 r s mk cap)
  from "10.prems" have "run r s s cap = Some (x, rest)" by simp
  from "10.IH" [OF this] show ?case .
next
  case (11 r s mk cap)
  from "11.prems" have "run r s mk (take (length mk - length s) mk) = Some (x, rest)" by simp
  from "11.IH" [OF this] show ?case .
qed simp_all

lemma run_One_suffix_less:
  "run (One a # r) s mk cap = Some (x, rest) \<Longrightarrow> length rest < length s"
  by (cases s) (auto split: if_splits dest: run_suffix_le)

lemma search_from_suffix_less:
  "search_from (One a # r) k s = Some m \<Longrightarrow> length (suffix m) < length s"
proof (induction s arbitrary: k)
  case Nil
  then show ?case by simp
next
  case (Cons c cs)
  show ?case
  proof (cases "run (One a # r) (c # cs) [] []")
    case None
    with Cons.prems have "search_from (One a # r) (Suc k) cs = Some m" by simp
    from Cons.IH [OF this] show ?thesis by simp
  next
    case (Some p)
    obtain cap rest where p: "p = (cap, rest)" by (cases p)
    from Some p Cons.prems have "suffix m = rest" by auto
    moreover from Some p have "length rest < length (c # cs)"
      by (auto dest: run_One_suffix_less simp del: run.simps)
    ultimately show ?thesis by simp
  qed
qed

lemma linkRegex_head: "linkRegex = One (Ch (CHR ''<'')) # tl linkRegex"
  by (simp add: linkRegex_def lit_def)

lemma buttonRegex_head: "buttonRegex = One (Ch (CHR ''<'')) # tl buttonRegex"
  by (simp add: buttonRegex_def lit_def)

lemma link_search_shrinks:
  "regex_search linkRegex s = Some m \<Longrightarrow> length (suffix m) < length s"
  unfolding regex_search_def by (subst (asm) linkRegex_head) (rule search_from_suffix_less)

lemma button_search_shrinks:
  "regex_search buttonRegex s = Some m \<Longrightarrow> length (suffix m) < length s"
  unfolding regex_search_def by (subst (asm) buttonRegex_head) (rule search_from_suffix_less)

termination links_loop
  by (relation "measure length") (auto dest: link_search_shrinks)

termination buttons_loop
  by (relation "measure length") (auto dest: button_search_shrinks)

termination button_hits
  by (relation "measure (\<lambda>(off, s). length s)") (auto dest: button_search_shrinks)

lemma fgets_take_rest_le: "fgets_take n s = (l, r) \<Longrightarrow> length r \<le> length s"
  by (induction n s arbitrary: l r rule: fgets_take.induct)
     (auto split: if_splits prod.splits intro: le_SucI)

lemma fgets_take_Suc_rest_less:
  "fgets_take (Suc n) (c # cs) = (l, r) \<Longrightarrow> length r < length (c # cs)"
  by (auto split: if_splits prod.splits dest: fgets_take_rest_le)

lemma fgets_rest_less: "fgets 256 s = Some (buf, rest) \<Longrightarrow> length rest < length s"
proof -
  assume a: "fgets 256 s = Some (buf, rest)"
  then obtain c cs where s: "s = c # cs"
    by (cases s) (simp_all add: fgets_def)
  have n: "(256::nat) - 1 = Suc 254" by simp
  from a s have "fgets_take (Suc 254) (c # cs) = (buf, rest)"
    unfolding fgets_def n by simp
  from fgets_take_Suc_rest_less [OF this] s show ?thesis by simp
qed

termination read_loop
  by (relation "measure (\<lambda>(pipe, result). length pipe)") (auto dest: fgets_rest_less)

declare links_loop.simps [simp del]

declare buttons_loop.simps [simp del]

declare button_hits.simps [simp del]

declare runner_cmd.simps [simp del]

declare bridge_cmd.simps [simp del]

declare digits10.simps [simp del]

declare read_loop.simps [simp del]

section \<open>The rendered output and the exit paths\<close>

lemma print_items_concat:
  "print_items xs out = out @ concat (map (\<lambda>x. '' - '' @ x @ ''\<newline>'') xs)"
  unfolding print_items_def endl_def
  by (induction xs arbitrary: out) simp_all

lemma extract_body_empty: "extract_body [] = \<lparr>links = [], buttons = []\<rparr>"
  by (simp add: extract_body_def links_loop.simps buttons_loop.simps regex_search_def
      linkRegex_def buttonRegex_def lit_def)

lemma receive_concat: "receive chunks = concat chunks"
proof -
  have "foldl (\<lambda>html chunk. fst (WriteCallback chunk 1 (length chunk) html)) acc chunks =
          acc @ concat chunks" for acc
    by (induction chunks arbitrary: acc) (simp_all add: WriteCallback_def)
  then show ?thesis by (simp add: receive_def)
qed

text \<open>
  Claim C1.  For the body \<^verbatim>\<open><button>Outer<button>Inner</button></button>\<close> the button
  scan yields exactly one label: the text from just after the first opening tag up to
  the first closing tag, so it still holds the inner \<^verbatim>\<open><button>Inner\<close> markup.
\<close>

theorem nested_button_capture:
  "buttons (extract_body ''<button>Outer<button>Inner</button></button>'') =
     [''Outer<button>Inner'']"
  by (simp add: extract_body_def buttons_loop.simps regex_search_def buttonRegex_def lit_def
      tolower_def)

text \<open>
  Claim C10.  The link pattern asks only for \<^verbatim>\<open><a\<close> followed by any characters other
  than \<^verbatim>\<open>>\<close>, so a tag whose name merely begins with the letter a is taken for an
  anchor: the body \<^verbatim>\<open><abbr href="x">\<close> has no anchor element and still yields the
  link \<^verbatim>\<open>x\<close>.
\<close>

theorem link_rule_accepts_other_tags:
  \<open>links (extract_body ''<abbr href="x">'') = [''x'']\<close>
  by (simp add: extract_body_def links_loop.simps regex_search_def linkRegex_def lit_def
      tolower_def quotes_def)

text \<open>
  Claim C5 says that extraction succeeds on every body.  The functions above give the
  result of a scan when the library's matcher has room to run.  That matcher nests
  calls for each character a candidate match consumes; on a body with a long enough
  candidate (a button element whose inner text is a hundred thousand characters on one
  line) it exhausts the stack, and the process is killed before anything is printed.
  That end of a run is outside the model.  On the empty body the run gives two empty
  sequences, the two headers on the standard output, and the value 0.
\<close>

lemma empty_body_run:
  assumes "2 \<le> length argv" and "curl_easy_init_ok w"
    and "curl_easy_perform w (argv ! 1) = (CURLE_OK, [])"
  shows "extract_body [] = \<lparr>links = [], buttons = []\<rparr>"
    and "website_mapper_main w argv =
      \<lparr>calls = [Curl_init, Curl_perform (argv ! 1), Curl_cleanup],
       cout = ''Links found:\<newline>\<newline>Buttons found:\<newline>'', cerr = [], returned = 0\<rparr>"
  using assms
  by (simp_all add: website_mapper_main_def Let_def receive_def extract_body_empty
      print_items_def)

text \<open>
  Claim C6.  With fewer than two entries in the argument vector (no URL, no command)
  each tool writes its usage message to the error stream and returns 1 without making
  a single call to the outside: no transfer is set up and no process is started.
\<close>

theorem missing_argument_no_activity:
  assumes "length argv < 2"
  shows "calls (website_mapper_main w argv) = [] \<and>
         returned (website_mapper_main w argv) = 1 \<and>
         cout (website_mapper_main w argv) = [] \<and>
         take 7 (cerr (website_mapper_main w argv)) = ''Usage: '' \<and>
         cli_runner_main system argv =
           \<lparr>calls = [], cout = [], cerr = ''No command provided\<newline>'', returned = 1\<rparr> \<and>
         cli_bridge_main popen argv =
           \<lparr>calls = [], cout = [], cerr = ''Usage: cli_bridge <args>\<newline>'',
            returned = 1\<rparr>"
  using assms
  by (simp add: website_mapper_main_def cli_runner_main_def cli_bridge_main_def endl_def)

theorem missing_argument_no_activity_witness:
  "length [''website_mapper''] < 2 \<and>
   calls (website_mapper_main
      \<lparr>curl_easy_init_ok = True,
       curl_easy_perform = (\<lambda>url. (CURLE_OK, [''<a href='y'>''])),
       curl_easy_strerror = (\<lambda>code. ''No error'')\<rparr> [''website_mapper'']) = [] \<and>
   returned (website_mapper_main
      \<lparr>curl_easy_init_ok = True,
       curl_easy_perform = (\<lambda>url. (CURLE_OK, [''<a href='y'>''])),
       curl_easy_strerror = (\<lambda>code. ''No error'')\<rparr> [''website_mapper'']) = 1 \<and>
   cerr (website_mapper_main
      \<lparr>curl_easy_init_ok = True,
       curl_easy_perform = (\<lambda>url. (CURLE_OK, [''<a href='y'>''])),
       curl_easy_strerror = (\<lambda>code. ''No error'')\<rparr> [''website_mapper'']) =
     ''Usage: website_mapper <url>\<newline>'' \<and>
   calls (cli_runner_main (\<lambda>cmd. 0) [''website_mapper'']) = []"
  using missing_argument_no_activity
    [of "[''website_mapper'']"
        "\<lparr>curl_easy_init_ok = True,
          curl_easy_perform = (\<lambda>url. (CURLE_OK, [''<a href='y'>''])),
          curl_easy_strerror = (\<lambda>code. ''No error'')\<rparr>" "\<lambda>cmd. 0" "Map.empty"]
  by (simp add: website_mapper_main_def cli_runner_main_def endl_def)

text \<open>
  Claim C7.  When \<open>curl_easy_perform\<close> reports any code other than \<open>CURLE_OK\<close>, the run
  is exactly this: the message \<open>curl_easy_perform() failed: \<close> with the library's
  reason for the code on the error stream, nothing on the standard output, and the
  value 1.  The result does not depend on the bytes received before the failure, so
  nothing is extracted from them.  In every run, whatever was written to the standard
  output was written by a run that returned 0 with an empty error stream.
\<close>

theorem fetch_failure_is_terminal:
  "(cout (website_mapper_main w argv) \<noteq> [] \<longrightarrow>
      returned (website_mapper_main w argv) = 0 \<and> cerr (website_mapper_main w argv) = []) \<and>
   (2 \<le> length argv \<and> curl_easy_init_ok w \<and>
    curl_easy_perform w (argv ! 1) = (res, chunks) \<and> res \<noteq> CURLE_OK \<longrightarrow>
      website_mapper_main w argv =
        \<lparr>calls = [Curl_init, Curl_perform (argv ! 1), Curl_cleanup],
         cout = [],
         cerr = ''curl_easy_perform() failed: '' @ curl_easy_strerror w res @ ''\<newline>'',
         returned = 1\<rparr>)"
  by (auto simp add: website_mapper_main_def Let_def endl_def split: prod.splits)

theorem fetch_failure_is_terminal_witness:
  "2 \<le> length [''website_mapper'', ''http://nowhere.invalid/''] \<and>
   (6::nat) \<noteq> CURLE_OK \<and>
   website_mapper_main
      \<lparr>curl_easy_init_ok = True,
       curl_easy_perform = (\<lambda>url. (6, [''<button>partial''])),
       curl_easy_strerror = (\<lambda>code. ''Could not resolve hostname'')\<rparr>
      [''website_mapper'', ''http://nowhere.invalid/''] =
     \<lparr>calls = [Curl_init, Curl_perform ''http://nowhere.invalid/'', Curl_cleanup],
      cout = [],
      cerr = ''curl_easy_perform() failed: Could not resolve hostname\<newline>'',
      returned = 1\<rparr>"
  using fetch_failure_is_terminal
    [of "\<lparr>curl_easy_init_ok = True,
           curl_easy_perform = (\<lambda>url. (6, [''<button>partial''])),
           curl_easy_strerror = (\<lambda>code. ''Could not resolve hostname'')\<rparr>"
        "[''website_mapper'', ''http://nowhere.invalid/'']" 6 "[''<button>partial'']"]
  by (simp add: CURLE_OK_def)

text \<open>
  Claim C8.  On a successful run the standard output is, in this order: the header
  \<open>Links found:\<close>, one line \<open> - link\<close> for each extracted link, an empty line, the
  header \<open>Buttons found:\<close>, and one line \<open> - label\<close> for each extracted button label.
\<close>

theorem rendered_output_format:
  assumes "2 \<le> length argv" and "curl_easy_init_ok w"
    and "curl_easy_perform w (argv ! 1) = (CURLE_OK, chunks)"
  shows "cout (website_mapper_main w argv) =
           ''Links found:\<newline>'' @
           concat (map (\<lambda>link. '' - '' @ link @ ''\<newline>'')
             (links (extract_body (receive chunks)))) @
           ''\<newline>'' @
           ''Buttons found:\<newline>'' @
           concat (map (\<lambda>label. '' - '' @ label @ ''\<newline>'')
             (buttons (extract_body (receive chunks))))"
  using assms
  by (simp add: website_mapper_main_def Let_def print_items_concat)

theorem rendered_output_format_witness:
  \<open>2 \<le> length [''website_mapper'', ''http://example.org/''] \<and>
   cout (website_mapper_main
      \<lparr>curl_easy_init_ok = True,
       curl_easy_perform = (\<lambda>url. (CURLE_OK,
         [''<html><a href="/about">Ab'', ''out</a><button class="x">Go</button></html>''])),
       curl_easy_strerror = (\<lambda>code. ''No error'')\<rparr>
      [''website_mapper'', ''http://example.org/'']) =
     ''Links found:\<newline> - /about\<newline>\<newline>Buttons found:\<newline> - Go\<newline>''\<close>
proof -
  have e: \<open>extract_body
      ''<html><a href="/about">About</a><button class="x">Go</button></html>'' =
      \<lparr>links = [''/about''], buttons = [''Go'']\<rparr>\<close>
    by (simp add: extract_body_def links_loop.simps buttons_loop.simps regex_search_def
        linkRegex_def buttonRegex_def lit_def tolower_def quotes_def)
  show ?thesis
    using rendered_output_format
      [of "[''website_mapper'', ''http://example.org/'']"
          \<open>\<lparr>curl_easy_init_ok = True,
            curl_easy_perform = (\<lambda>url. (CURLE_OK,
              [''<html><a href="/about">Ab'',
               ''out</a><button class="x">Go</button></html>''])),
            curl_easy_strerror = (\<lambda>code. ''No error'')\<rparr>\<close>
          \<open>[''<html><a href="/about">Ab'',
            ''out</a><button class="x">Go</button></html>'']\<close>]
    by (simp add: receive_concat e)
qed

section \<open>The two invokers\<close>


text \<open>
  \<open>cli_runner\<close> hands the value of \<open>std::system\<close> to \<open>return\<close>.  That value is a wait
  status, which holds the exit code of the child in its second byte: for a child that
  ended with code 1 it is 256, and the exit status of \<open>cli_runner\<close> is then 0.
\<close>

lemma runner_exit_status_wraps:
  "returned (cli_runner_main (\<lambda>cmd. 256) [''cli_runner'', ''false'']) = 256 \<and>
   exit_status (cli_runner_main (\<lambda>cmd. 256) [''cli_runner'', ''false'']) = 0"
  by (simp add: cli_runner_main_def exit_status_def Let_def)



section \<open>Reasoning about the matcher\<close>

subsection \<open>Case folding\<close>

lemma tolower_other:
  "c \<notin> set ''ABCDEFGHIJKLMNOPQRSTUVWXYZ'' \<Longrightarrow> tolower c = c"
  unfolding tolower_def by (simp split: option.splits)

lemma tolower_range:
  "tolower c = c \<or> tolower c \<in> set ''abcdefghijklmnopqrstuvwxyz''"
  unfolding tolower_def by (simp split: option.splits) 

lemma tolower_eq_special:
  assumes "t \<notin> set ''ABCDEFGHIJKLMNOPQRSTUVWXYZ''" and "t \<notin> set ''abcdefghijklmnopqrstuvwxyz''"
  shows "(tolower c = t) = (c = t)"
proof
  assume "tolower c = t"
  with tolower_range [of c] assms(2) show "c = t" by auto
next
  assume "c = t"
  with assms(1) show "tolower c = t" by (simp add: tolower_other)
qed

lemma accepts_Neg_gt [simp]: "accepts (Neg ''>'') c = (c \<noteq> CHR ''>'')"
  by (simp add: tolower_eq_special tolower_other)

lemma accepts_Ch_gt [simp]: "accepts (Ch (CHR ''>'')) c = (c = CHR ''>'')"
  by (simp add: tolower_eq_special tolower_other)

lemma accepts_Pos_quotes [simp]: "accepts (Pos quotes) c = (c \<in> set quotes)"
  by (auto simp add: quotes_def tolower_eq_special tolower_other)

lemma accepts_Neg_quotes [simp]: "accepts (Neg quotes) c = (c \<notin> set quotes)"
  by (auto simp add: quotes_def tolower_eq_special tolower_other)

lemma accepts_Dot [simp]: "accepts Dot c = (c \<noteq> CHR 0x0A \<and> c \<noteq> CHR 0x0D)"
  by (simp add: tolower_eq_special tolower_other)

lemma ieq_Nil [simp]: "ieq [] v = (v = [])" "ieq u [] = (u = [])"
  by (auto simp add: ieq_def)

lemma ieq_Cons [simp]: "ieq (c # u) (d # v) = (tolower c = tolower d \<and> ieq u v)"
  by (simp add: ieq_def)

lemma ieq_length: "ieq u v \<Longrightarrow> length u = length v"
  unfolding ieq_def by (rule map_eq_imp_length_eq)

lemma run_lit:
  "run (lit p @ r) s mk cap =
     (if ieq (take (length p) s) p then run r (drop (length p) s) mk cap else None)"
proof (induction p arbitrary: s)
  case Nil
  show ?case by (simp add: lit_def)
next
  case (Cons a p)
  have step: "lit (a # p) @ r = One (Ch a) # (lit p @ r)" by (simp add: lit_def)
  show ?case
  proof (cases s)
    case Nil
    then show ?thesis by (simp add: step)
  next
    case (Cons c cs)
    then show ?thesis by (simp add: step Cons.IH)
  qed
qed

declare accepts.simps [simp del]

lemma run_Star_inv:
  "run (Star x # r) s mk cap = Some m \<Longrightarrow>
     \<exists>a b. s = a @ b \<and> (\<forall>c\<in>set a. accepts x c) \<and> run r b mk cap = Some m"
proof (induction s)
  case Nil
  then show ?case by simp
next
  case (Cons c cs)
  show ?case
  proof (cases "accepts x c \<and> run (Star x # r) cs mk cap \<noteq> None")
    case True
    with Cons.prems have "run (Star x # r) cs mk cap = Some m" by auto
    from Cons.IH [OF this] obtain a b where
      "cs = a @ b" "\<forall>c\<in>set a. accepts x c" "run r b mk cap = Some m" by blast
    with True have "c # cs = (c # a) @ b \<and> (\<forall>d\<in>set (c # a). accepts x d) \<and> run r b mk cap = Some m"
      by simp
    then show ?thesis by blast
  next
    case False
    with Cons.prems have "run r (c # cs) mk cap = Some m"
      by (cases "run (Star x # r) cs mk cap") (auto split: if_splits)
    then have "c # cs = [] @ (c # cs) \<and> (\<forall>d\<in>set []. accepts x d) \<and> run r (c # cs) mk cap = Some m"
      by simp
    then show ?thesis by blast
  qed
qed

lemma run_LazyStar_inv:
  "run (LazyStar x # r) s mk cap = Some m \<Longrightarrow>
     \<exists>a b. s = a @ b \<and> (\<forall>c\<in>set a. accepts x c) \<and> run r b mk cap = Some m"
proof (induction s)
  case Nil
  then show ?case by simp
next
  case (Cons c cs)
  show ?case
  proof (cases "run r (c # cs) mk cap")
    case None
    with Cons.prems have acc: "accepts x c" and "run (LazyStar x # r) cs mk cap = Some m"
      by (auto split: if_splits)
    from Cons.IH [OF this(2)] obtain a b where
      "cs = a @ b" "\<forall>c\<in>set a. accepts x c" "run r b mk cap = Some m" by blast
    with acc have "c # cs = (c # a) @ b \<and> (\<forall>d\<in>set (c # a). accepts x d) \<and> run r b mk cap = Some m"
      by simp
    then show ?thesis by blast
  next
    case (Some m')
    with Cons.prems have "run r (c # cs) mk cap = Some m" by simp
    then have "c # cs = [] @ (c # cs) \<and> (\<forall>d\<in>set []. accepts x d) \<and> run r (c # cs) mk cap = Some m"
      by simp
    then show ?thesis by blast
  qed
qed


subsection \<open>What a match of either pattern looks like\<close>


lemma button_match_inv:
  assumes "run buttonRegex s mk0 cap0 = Some (cap, rest)"
  shows "\<exists>opn attrs cl.
           s = opn @ attrs @ CHR ''>'' # cap @ cl @ rest \<and>
           ieq opn ''<button'' \<and> CHR ''>'' \<notin> set attrs \<and> ieq cl ''</button>'' \<and>
           (\<forall>c\<in>set cap. c \<noteq> CHR 0x0A \<and> c \<noteq> CHR 0x0D)"
proof -
  let ?T = "[One (Ch (CHR ''>'')), Open, LazyStar Dot, Close]"
  from assms have a1: "run (lit ''<button'' @ (Star (Neg ''>'') # ?T @ lit ''</button>'')) s mk0 cap0 = Some (cap, rest)"
    by (simp add: buttonRegex_def)
  then have o: "ieq (take 7 s) ''<button''"
    and a2: "run (Star (Neg ''>'') # ?T @ lit ''</button>'') (drop 7 s) mk0 cap0 = Some (cap, rest)"
    unfolding run_lit by (simp_all add: eval_nat_numeral split: if_splits)
  from run_Star_inv [OF a2] obtain attrs b where
    b: "drop 7 s = attrs @ b" and at: "\<forall>c\<in>set attrs. accepts (Neg ''>'') c"
    and a3: "run (?T @ lit ''</button>'') b mk0 cap0 = Some (cap, rest)" by blast
  from a3 obtain s1 where s1: "b = CHR ''>'' # s1"
    and a4: "run (LazyStar Dot # Close # lit ''</button>'') s1 s1 cap0 = Some (cap, rest)"
    by (cases b) (simp_all split: if_splits)
  from run_LazyStar_inv [OF a4] obtain u s2 where
    u: "s1 = u @ s2" "\<forall>c\<in>set u. accepts Dot c"
    and a5: "run (Close # lit ''</button>'') s2 s1 cap0 = Some (cap, rest)" by blast
  from a5 have "run (lit ''</button>'' @ []) s2 s1 (take (length s1 - length s2) s1) = Some (cap, rest)"
    by simp
  then have cl: "ieq (take 9 s2) ''</button>''" and r: "rest = drop 9 s2"
    and c: "cap = take (length s1 - length s2) s1"
    unfolding run_lit by (simp_all add: eval_nat_numeral split: if_splits)
  from c u(1) have cap: "cap = u" by simp
  have "s = take 7 s @ drop 7 s" by simp
  also have "drop 7 s = attrs @ CHR ''>'' # cap @ take 9 s2 @ rest"
    using b s1 u(1) cap r by simp
  finally have "s = take 7 s @ attrs @ CHR ''>'' # cap @ take 9 s2 @ rest" .
  moreover from at have "CHR ''>'' \<notin> set attrs" by auto
  moreover from u(2) cap have "\<forall>c\<in>set cap. c \<noteq> CHR 0x0A \<and> c \<noteq> CHR 0x0D" by simp
  ultimately show ?thesis using o cl by blast
qed

subsection \<open>Searching and the loops\<close>

lemma search_from_Nil_hit:
  "run re [] [] [] = Some (cap, rest) \<Longrightarrow> search_from re k [] = Some m \<Longrightarrow>
     position m = k \<and> sub1 m = cap \<and> suffix m = rest"
  by (cases m) simp

lemma search_from_Cons_hit:
  "run re (c # cs) [] [] = Some (cap, rest) \<Longrightarrow> search_from re k (c # cs) = Some m \<Longrightarrow>
     position m = k \<and> sub1 m = cap \<and> suffix m = rest"
  by (cases m) (simp del: run.simps)

lemma search_from_inv:
  "search_from re k s = Some m \<Longrightarrow>
     \<exists>pre s'. s = pre @ s' \<and> position m = k + length pre \<and>
              run re s' [] [] = Some (sub1 m, suffix m)"
proof (induction s arbitrary: k)
  case Nil
  show ?case
  proof (cases "run re [] [] []")
    case None
    with Nil show ?thesis by simp
  next
    case (Some p)
    then have r: "run re [] [] [] = Some (fst p, snd p)" by simp
    from search_from_Nil_hit [OF r Nil]
    have "[] = [] @ [] \<and> position m = k + length ([]::string) \<and>
        run re [] [] [] = Some (sub1 m, suffix m)"
      using r by simp
    then show ?thesis
      by - (rule exI [of _ "[]"], rule exI [of _ "[]"], assumption)
  qed
next
  case (Cons c cs)
  show ?case
  proof (cases "run re (c # cs) [] []")
    case None
    with Cons.prems have "search_from re (Suc k) cs = Some m" by simp
    from Cons.IH [OF this] obtain pre s' where
      "cs = pre @ s'" "position m = Suc k + length pre" "run re s' [] [] = Some (sub1 m, suffix m)"
      by blast
    then have "c # cs = (c # pre) @ s' \<and> position m = k + length (c # pre) \<and>
        run re s' [] [] = Some (sub1 m, suffix m)" by simp
    then show ?thesis
      by - (rule exI [of _ "c # pre"], rule exI [of _ "s'"], assumption)
  next
    case (Some p)
    then have r: "run re (c # cs) [] [] = Some (fst p, snd p)" by simp
    from search_from_Cons_hit [OF r Cons.prems]
    have "c # cs = [] @ (c # cs) \<and> position m = k + length ([]::string) \<and>
        run re (c # cs) [] [] = Some (sub1 m, suffix m)"
      using r by (simp del: run.simps)
    then show ?thesis
      by - (rule exI [of _ "[]"], rule exI [of _ "c # cs"], assumption)
  qed
qed


lemma button_hits_labels: "map snd (button_hits off s) = buttons_loop s"
proof (induction off s rule: button_hits.induct)
  case (1 off s)
  show ?case
  proof (cases "regex_search buttonRegex s")
    case None
    then show ?thesis by (simp add: button_hits.simps [of off s] buttons_loop.simps [of s])
  next
    case (Some m)
    with "1.IH" [OF Some] show ?thesis
      by (simp add: button_hits.simps [of off s] buttons_loop.simps [of s])
  qed
qed

lemma button_hits_matched:
  "(p, l) \<in> set (button_hits off s) \<Longrightarrow>
     off \<le> p \<and> (\<exists>rest. run buttonRegex (drop (p - off) s) [] [] = Some (l, rest))"
proof (induction off s rule: button_hits.induct)
  case (1 off s)
  show ?case
  proof (cases "regex_search buttonRegex s")
    case None
    with "1.prems" show ?thesis by (simp add: button_hits.simps [of off s])
  next
    case (Some m)
    from Some obtain pre s' where s: "s = pre @ s'" and pos: "position m = length pre"
      and r: "run buttonRegex s' [] [] = Some (sub1 m, suffix m)"
      unfolding regex_search_def by (fastforce dest: search_from_inv)
    from button_match_inv [OF r] obtain x where s': "s' = x @ suffix m" by fastforce
    let ?off' = "off + (length s - length (suffix m))"
    from Some "1.prems" have
      "(p, l) = (off + position m, sub1 m) \<or> (p, l) \<in> set (button_hits ?off' (suffix m))"
      by (simp add: button_hits.simps [of off s])
    then show ?thesis
    proof
      assume "(p, l) = (off + position m, sub1 m)"
      with s pos r show ?thesis by simp
    next
      assume "(p, l) \<in> set (button_hits ?off' (suffix m))"
      from "1.IH" [OF Some this] obtain rest where
        le: "?off' \<le> p" and rr: "run buttonRegex (drop (p - ?off') (suffix m)) [] [] = Some (l, rest)"
        by blast
      have len: "length s - length (suffix m) = length (pre @ x)" using s s' by simp
      have "drop (p - off) s = drop (p - ?off') (suffix m)"
      proof -
        from le len have "p - off = length (pre @ x) + (p - ?off')" by simp
        moreover have "s = (pre @ x) @ suffix m" using s s' by simp
        ultimately show ?thesis by (metis append_eq_conv_conj drop_drop add.commute)
      qed
      with le rr show ?thesis by auto
    qed
  qed
qed

lemma tolower_lits [simp]:
  "tolower (CHR ''<'') = CHR ''<''" "tolower (CHR ''>'') = CHR ''>''"
  "tolower (CHR ''/'') = CHR ''/''" "tolower (CHR ''='') = CHR ''=''"
  "tolower (CHR ''a'') = CHR ''a''" "tolower (CHR ''b'') = CHR ''b''"
  "tolower (CHR ''e'') = CHR ''e''" "tolower (CHR ''f'') = CHR ''f''"
  "tolower (CHR ''h'') = CHR ''h''" "tolower (CHR ''n'') = CHR ''n''"
  "tolower (CHR ''o'') = CHR ''o''" "tolower (CHR ''r'') = CHR ''r''"
  "tolower (CHR ''t'') = CHR ''t''" "tolower (CHR ''u'') = CHR ''u''"
  "tolower (CHR 0x0A) = CHR 0x0A" "tolower (CHR 0x0D) = CHR 0x0D"
  "tolower (CHR 0x22) = CHR 0x22" "tolower (CHR 0x27) = CHR 0x27"
  by (simp_all add: tolower_other)

lemma ieq_set: "ieq u v \<Longrightarrow> c \<in> set u \<Longrightarrow> tolower c \<in> set (map tolower v)"
proof -
  assume "ieq u v" and "c \<in> set u"
  then have "tolower c \<in> set (map tolower u)" by simp
  with \<open>ieq u v\<close> show ?thesis by (simp only: ieq_def)
qed

lemma icontains_mid: "ieq v p \<Longrightarrow> icontains (u @ v @ w) p"
proof (induction u)
  case Nil
  show ?case
  proof (cases "v @ w")
    case Nil
    with Nil.prems show ?thesis by simp
  next
    case (Cons c cs)
    from Nil.prems have "length v = length p" by (rule ieq_length)
    then have "take (length p) (v @ w) = v" by simp
    with Cons Nil.prems show ?thesis by (metis append_Nil icontains.simps(2))
  qed
next
  case (Cons c u)
  then show ?case by simp
qed

lemma prefix_before_first:
  assumes "xs @ x # ys = zs @ ws" and "x \<notin> set zs"
  shows "\<exists>t. xs = zs @ t"
proof -
  from assms(1) obtain us where
    "(xs = zs @ us \<and> us @ x # ys = ws) \<or> (xs @ us = zs \<and> x # ys = us @ ws)"
    by (auto simp add: append_eq_append_conv2)
  then show ?thesis
  proof
    assume "xs = zs @ us \<and> us @ x # ys = ws"
    then show ?thesis by blast
  next
    assume c: "xs @ us = zs \<and> x # ys = us @ ws"
    show ?thesis
    proof (cases us)
      case Nil
      with c show ?thesis by simp
    next
      case (Cons u us')
      with c have "x \<in> set zs" by auto
      with assms(2) show ?thesis by simp
    qed
  qed
qed

lemma first_occurrence_unique:
  "x \<notin> set xs \<Longrightarrow> x \<notin> set xs' \<Longrightarrow> xs @ x # ys = xs' @ x # ys' \<Longrightarrow>
     xs = xs' \<and> ys = ys'"
proof (induction xs arbitrary: xs')
  case Nil
  then show ?case by (cases xs') auto
next
  case (Cons a xs)
  then show ?case by (cases xs') auto
qed

lemma button_no_match_across_line_break:
  assumes o: "ieq opn ''<button''" and a: "CHR ''>'' \<notin> set attrs"
    and n: "nl = CHR 0x0A \<or> nl = CHR 0x0D"
    and b: "\<not> icontains before ''</button>''"
  shows "run buttonRegex (opn @ attrs @ CHR ''>'' # before @ nl # after) mk cap = None"
proof (rule ccontr)
  assume "run buttonRegex (opn @ attrs @ CHR ''>'' # before @ nl # after) mk cap \<noteq> None"
  then obtain l rest where
    "run buttonRegex (opn @ attrs @ CHR ''>'' # before @ nl # after) mk cap = Some (l, rest)"
    by auto
  from button_match_inv [OF this] obtain opn' attrs' cl where
    eq: "opn @ attrs @ CHR ''>'' # before @ nl # after = opn' @ attrs' @ CHR ''>'' # l @ cl @ rest"
    and o': "ieq opn' ''<button''" and a': "CHR ''>'' \<notin> set attrs'"
    and cl: "ieq cl ''</button>''"
    and l: "\<forall>c\<in>set l. c \<noteq> CHR 0x0A \<and> c \<noteq> CHR 0x0D"
    by (elim exE conjE) (rule that)
  from o o' have "length opn = length opn'" by (simp add: ieq_length)
  with eq have "attrs @ CHR ''>'' # before @ nl # after = attrs' @ CHR ''>'' # l @ cl @ rest"
    by simp
  from first_occurrence_unique [OF a a' this]
  have eq2: "before @ nl # after = (l @ cl) @ rest" by simp
  have "nl \<notin> set cl"
  proof
    assume "nl \<in> set cl"
    from ieq_set [OF cl this] n show False by auto
  qed
  with l n have "nl \<notin> set (l @ cl)" by auto
  from prefix_before_first [OF eq2 this] obtain t where "before = l @ cl @ t" by auto
  with cl have "icontains before ''</button>''" by (simp add: icontains_mid)
  with b show False by simp
qed

text \<open>
  Claim C9.  Take a button element as the button pattern delimits it: an opening tag
  \<^verbatim>\<open><button\<close> (in any letter case) with attributes free of \<^verbatim>\<open>>\<close>, then \<^verbatim>\<open>>\<close>, then
  inner text in which a line feed or carriage return comes before any closing tag
  \<^verbatim>\<open></button>\<close>.  Wherever such an element stands in the body, the scan reports no
  match that begins at its opening tag: the wildcard cannot pass the line break, and
  the element contributes no label.  (The labels of \<open>button_hits\<close> are exactly the
  extracted button labels.)
\<close>

theorem multiline_button_not_captured:
  assumes "ieq opn ''<button''" and "CHR ''>'' \<notin> set attrs"
    and "nl = CHR 0x0A \<or> nl = CHR 0x0D"
    and "\<not> icontains before ''</button>''"
    and "body = pre @ opn @ attrs @ CHR ''>'' # before @ nl # after"
  shows "map snd (button_hits 0 body) = buttons (extract_body body) \<and>
         length pre \<notin> fst ` set (button_hits 0 body)"
proof
  show "map snd (button_hits 0 body) = buttons (extract_body body)"
    by (simp add: button_hits_labels extract_body_def)
  show "length pre \<notin> fst ` set (button_hits 0 body)"
  proof
    assume "length pre \<in> fst ` set (button_hits 0 body)"
    then obtain l where "(length pre, l) \<in> set (button_hits 0 body)" by force
    from button_hits_matched [OF this] obtain rest where
      "run buttonRegex (drop (length pre) body) [] [] = Some (l, rest)" by auto
    moreover have "run buttonRegex (drop (length pre) body) [] [] = None"
      using button_no_match_across_line_break [OF assms(1-4)] assms(5) by simp
    ultimately show False by simp
  qed
qed

theorem multiline_button_not_captured_witness:
  \<open>ieq ''<BUTTON'' ''<button'' \<and>
   \<not> icontains ''line one'' ''</button>'' \<and>
   buttons (extract_body
     (''<p><BUTTON id="b">line one'' @ CHR 0x0A # ''line two</button><button>ok</button>'')) =
     [''ok''] \<and>
   length ''<p>'' \<notin> fst ` set (button_hits 0
     (''<p><BUTTON id="b">line one'' @ CHR 0x0A # ''line two</button><button>ok</button>''))\<close>
proof -
  have a: \<open>ieq ''<BUTTON'' ''<button''\<close> by (simp add: ieq_def tolower_def)
  have b: \<open>CHR ''>'' \<notin> set '' id="b"''\<close> by simp
  have c: "CHR 0x0A = CHR 0x0A \<or> CHR 0x0A = CHR 0x0D" by simp
  have d: \<open>\<not> icontains ''line one'' ''</button>''\<close> by (simp add: ieq_def tolower_def)
  have e: \<open>''<p><BUTTON id="b">line one'' @ CHR 0x0A # ''line two</button><button>ok</button>'' =
      ''<p>'' @ ''<BUTTON'' @ '' id="b"'' @ CHR ''>'' # ''line one'' @ CHR 0x0A #
        ''line two</button><button>ok</button>''\<close> by simp
  have f: \<open>buttons (extract_body
     (''<p><BUTTON id="b">line one'' @ CHR 0x0A # ''line two</button><button>ok</button>'')) =
     [''ok'']\<close>
    by (simp add: extract_body_def buttons_loop.simps regex_search_def buttonRegex_def lit_def
        tolower_def accepts.simps)
  from multiline_button_not_captured [OF a b c d e] a d f show ?thesis by simp
qed



subsection \<open>Sequences of anchor tags and of button elements\<close>


















































end
